theory Spec2Isabelle
  imports Main
begin

section \<open>The regular expressions gpred.py compiles\<close>

text \<open>
  gpred.py hands three compiled patterns of Python's \<open>re\<close> module to its scanning
  functions.  The patterns use literals, the dot, character classes, the greedy
  \<open>?\<close>, a counted repetition, concatenation and alternation; this fragment is
  embedded as a datatype, with a backtracking matcher that lists the possible
  remainders of the text in the order in which \<open>re\<close> tries them.
\<close>

datatype regex =
    Eps
  | Lit char
  | AnyChar
  | OneOf "char list"
  | Opt regex
  | Cat regex regex
  | Alt regex regex

fun rmatch :: "regex \<Rightarrow> string \<Rightarrow> string list" where
  "rmatch Eps s = [s]"
| "rmatch (Lit c) s = (case s of [] \<Rightarrow> [] | x # xs \<Rightarrow> if x = c then [xs] else [])"
| "rmatch AnyChar s = (case s of [] \<Rightarrow> [] | x # xs \<Rightarrow> if x = CHR 0x0A then [] else [xs])"
| "rmatch (OneOf cs) s = (case s of [] \<Rightarrow> [] | x # xs \<Rightarrow> if x \<in> set cs then [xs] else [])"
| "rmatch (Opt r) s = rmatch r s @ [s]"
| "rmatch (Cat r1 r2) s = concat (map (rmatch r2) (rmatch r1 s))"
| "rmatch (Alt r1 r2) s = rmatch r1 s @ rmatch r2 s"

text \<open>A sequence of items, and \<open>r{n}\<close>.\<close>

fun cat_list :: "regex list \<Rightarrow> regex" where
  "cat_list [] = Eps"
| "cat_list (r # rs) = Cat r (cat_list rs)"

fun times :: "regex \<Rightarrow> nat \<Rightarrow> regex" where
  "times r 0 = Eps"
| "times r (Suc n) = Cat r (times r n)"

text \<open>
  \<open>match_at r text i\<close> is the end of the match of \<open>r\<close> that starts at offset \<open>i\<close>
  of \<open>text\<close>, if there is one (the first alternative that succeeds).
\<close>

definition match_at :: "regex \<Rightarrow> string \<Rightarrow> nat \<Rightarrow> nat option" where
  "match_at r text i =
     (case rmatch r (drop i text) of
        [] \<Rightarrow> None
      | rest # _ \<Rightarrow> Some (length text - length rest))"

fun first_match :: "regex \<Rightarrow> string \<Rightarrow> nat list \<Rightarrow> (nat \<times> nat) option" where
  "first_match r text [] = None"
| "first_match r text (i # is) =
     (case match_at r text i of
        Some j \<Rightarrow> Some (i, j)
      | None \<Rightarrow> first_match r text is)"

text \<open>
  \<open>Pattern.search(string, pos, endpos)\<close>: both bounds are clamped to
  \<open>[0, len(string)]\<close>, the text is cut at \<open>endpos\<close>, and the leftmost offset from
  \<open>pos\<close> on at which the pattern matches is returned, with the end of the match.
\<close>

definition clamp_index :: "string \<Rightarrow> int \<Rightarrow> nat" where
  "clamp_index s i =
     (if i < 0 then 0 else if int (length s) < i then length s else nat i)"

definition re_search :: "regex \<Rightarrow> string \<Rightarrow> int \<Rightarrow> int \<Rightarrow> (nat \<times> nat) option" where
  "re_search r s pos endpos =
     (let p = clamp_index s pos;
          e = clamp_index s endpos
      in first_match r (take e s) [p ..< Suc e])"

text \<open>
  \<open>Pattern.finditer(string, pos)\<close>: the successive non-overlapping matches, left to
  right.  A scan restarts at the end of the previous match (one further after an empty
  match; the patterns of gpred.py never match the empty string).
\<close>

fun finditer_from :: "regex \<Rightarrow> string \<Rightarrow> nat \<Rightarrow> nat list \<Rightarrow> (nat \<times> nat) list" where
  "finditer_from r s lo [] = []"
| "finditer_from r s lo (i # is) =
     (if i < lo then finditer_from r s lo is
      else case match_at r s i of
             None \<Rightarrow> finditer_from r s lo is
           | Some j \<Rightarrow> (i, j) # finditer_from r s (if i < j then j else Suc i) is)"

definition re_finditer :: "regex \<Rightarrow> string \<Rightarrow> int \<Rightarrow> (nat \<times> nat) list" where
  "re_finditer r s pos = finditer_from r s 0 [clamp_index s pos ..< Suc (length s)]"

text \<open>The three patterns of \<open>main\<close>:
  \<^verbatim>\<open>AT[TG]|[ATCG]TG\<close>, \<^verbatim>\<open>TA[GA]|TGA\<close> and \<^verbatim>\<open>A?G?GAGG|GGAG|GG.{1}GG\<close>.\<close>

definition start_regex :: regex where
  "start_regex =
     Alt (cat_list [Lit CHR ''A'', Lit CHR ''T'', OneOf ''TG''])
         (cat_list [OneOf ''ATCG'', Lit CHR ''T'', Lit CHR ''G''])"

definition stop_regex :: regex where
  "stop_regex =
     Alt (cat_list [Lit CHR ''T'', Lit CHR ''A'', OneOf ''GA''])
         (cat_list [Lit CHR ''T'', Lit CHR ''G'', Lit CHR ''A''])"

definition shine_regex :: regex where
  "shine_regex =
     Alt (cat_list [Opt (Lit CHR ''A''), Opt (Lit CHR ''G''),
                    Lit CHR ''G'', Lit CHR ''A'', Lit CHR ''G'', Lit CHR ''G''])
    (Alt (cat_list [Lit CHR ''G'', Lit CHR ''G'', Lit CHR ''A'', Lit CHR ''G''])
         (cat_list [Lit CHR ''G'', Lit CHR ''G'', times AnyChar 1,
                    Lit CHR ''G'', Lit CHR ''G'']))"

section \<open>The scanning functions\<close>

datatype error = TypeError | KeyError char | OverflowError

type_synonym gene = "int \<times> int"

text \<open>
  \<open>Pattern.search\<close> receives \<open>pos\<close> and \<open>endpos\<close> as C \<open>ssize_t\<close> (64 bits): a Python
  integer that does not fit raises \<open>OverflowError\<close> before any matching is done.
\<close>

definition fits_ssize_t :: "int \<Rightarrow> bool" where
  "fits_ssize_t i \<longleftrightarrow> - (2 ^ 63) \<le> i \<and> i < 2 ^ 63"

definition pattern_search ::
  "regex \<Rightarrow> string \<Rightarrow> int \<Rightarrow> int \<Rightarrow> error + (nat \<times> nat) option" where
  "pattern_search r s pos endpos =
     (if fits_ssize_t pos \<and> fits_ssize_t endpos then Inr (re_search r s pos endpos)
      else Inl OverflowError)"

definition find_start :: "regex \<Rightarrow> string \<Rightarrow> int \<Rightarrow> int \<Rightarrow> error + int option" where
  "find_start start_re sequence start stop =
     (case pattern_search start_re sequence start stop of
        Inl e \<Rightarrow> Inl e
      | Inr (Some (i, j)) \<Rightarrow> Inr (Some (int i))
      | Inr None \<Rightarrow> Inr None)"

text \<open>The \<open>for\<close> loop of \<open>find_stop\<close> over the matches.  \<open>find_stop\<close> is modelled on
  the starts that fit \<open>ssize_t\<close>, as every position of a sequence does: in
  \<open>predict_genes\<close> it is handed a position that \<open>find_start\<close> returned.\<close>

fun first_in_frame :: "int \<Rightarrow> (nat \<times> nat) list \<Rightarrow> int option" where
  "first_in_frame reading_frame [] = None"
| "first_in_frame reading_frame ((start_pos, e) # matches) =
     (if int start_pos mod 3 = reading_frame then Some (int start_pos)
      else first_in_frame reading_frame matches)"

definition find_stop :: "regex \<Rightarrow> string \<Rightarrow> int \<Rightarrow> int option" where
  "find_stop stop_re sequence start =
     (let reading_frame = start mod 3;
          matches = re_finditer stop_re sequence start
      in first_in_frame reading_frame matches)"

definition has_shine_dalgarno :: "regex \<Rightarrow> string \<Rightarrow> int \<Rightarrow> int \<Rightarrow> error + bool" where
  "has_shine_dalgarno shine_re sequence start max_shine_dalgarno_distance =
     (let start_search = start - max_shine_dalgarno_distance
      in if start_search < 0 then Inr False
         else case pattern_search shine_re sequence start_search (start - 6) of
                Inl e \<Rightarrow> Inl e
              | Inr a_match \<Rightarrow> if a_match \<noteq> None then Inr True else Inr False)"

section \<open>predict_genes\<close>

text \<open>
  One pass through the body of the \<open>while\<close> loop, from a cursor that is an integer.
  The new cursor is \<open>None\<close> when \<open>find_start\<close> found nothing: the body has no branch
  for it and leaves \<open>current_pos\<close> at \<open>None\<close>.  An error that \<open>find_start\<close> or
  \<open>has_shine_dalgarno\<close> raises leaves the body, and the loop, as it is.
\<close>

definition loop_body ::
  "string \<Rightarrow> regex \<Rightarrow> regex \<Rightarrow> regex \<Rightarrow> int \<Rightarrow> int \<Rightarrow> int \<Rightarrow> int \<Rightarrow> gene list
     \<Rightarrow> error + int option \<times> gene list" where
  "loop_body sequence start_re stop_re shine_re min_gene_len max_sd min_gap current_pos find_genes =
     (case find_start start_re sequence current_pos (int (length sequence)) of
        Inl e \<Rightarrow> Inl e
      | Inr None \<Rightarrow> Inr (None, find_genes)
      | Inr (Some cur) \<Rightarrow>
          (case find_stop stop_re sequence cur of
             Some stop \<Rightarrow>
               if stop - cur \<ge> min_gene_len then
                 (case has_shine_dalgarno shine_re sequence cur max_sd of
                    Inl e \<Rightarrow> Inl e
                  | Inr found \<Rightarrow>
                      if found
                      then Inr (Some (stop + 3 + min_gap), find_genes @ [(cur + 1, stop + 3)])
                      else Inr (Some (cur + 1), find_genes))
               else Inr (Some (cur + 1), find_genes)
           | None \<Rightarrow> Inr (Some (cur + 1), find_genes)))"

text \<open>
  The loop.  Its condition \<open>sequence_len - current_pos >= min_gap\<close> subtracts the
  cursor from an integer, which raises \<open>TypeError\<close> when the cursor is \<open>None\<close>.
  A negative \<open>min_gap\<close> can send the cursor backwards, so the loop need not end:
  the result is \<open>None\<close> when it does not.
\<close>

partial_function (option) predict_loop ::
  "string \<Rightarrow> regex \<Rightarrow> regex \<Rightarrow> regex \<Rightarrow> int \<Rightarrow> int \<Rightarrow> int \<Rightarrow> int option \<Rightarrow> gene list
     \<Rightarrow> (error + gene list) option" where
  "predict_loop sequence start_re stop_re shine_re min_gene_len max_sd min_gap current_pos find_genes =
     (case current_pos of
        None \<Rightarrow> Some (Inl TypeError)
      | Some cur \<Rightarrow>
          if int (length sequence) - cur \<ge> min_gap then
            (case loop_body sequence start_re stop_re shine_re min_gene_len max_sd min_gap
                    cur find_genes of
               Inl e \<Rightarrow> Some (Inl e)
             | Inr (current_pos', find_genes') \<Rightarrow>
                 predict_loop sequence start_re stop_re shine_re min_gene_len max_sd min_gap
                   current_pos' find_genes')
          else Some (Inr find_genes))"

declare predict_loop.simps [code]

definition predict_genes ::
  "string \<Rightarrow> regex \<Rightarrow> regex \<Rightarrow> regex \<Rightarrow> int \<Rightarrow> int \<Rightarrow> int \<Rightarrow> (error + gene list) option" where
  "predict_genes sequence start_re stop_re shine_re min_gene_len max_sd min_gap =
     predict_loop sequence start_re stop_re shine_re min_gene_len max_sd min_gap (Some 0) []"

section \<open>The reverse strand\<close>

definition complement :: "char \<rightharpoonup> char" where
  "complement =
     [CHR ''A'' \<mapsto> CHR ''T'', CHR ''C'' \<mapsto> CHR ''G'', CHR ''G'' \<mapsto> CHR ''C'', CHR ''T'' \<mapsto> CHR ''A'']"

text \<open>The list comprehension \<open>[complement[base] for base in ...]\<close>: a missing key
  raises \<open>KeyError\<close> at the first base that has none.\<close>

fun complement_all :: "string \<Rightarrow> error + string" where
  "complement_all [] = Inr []"
| "complement_all (base # rest) =
     (case complement base of
        None \<Rightarrow> Inl (KeyError base)
      | Some c \<Rightarrow>
          (case complement_all rest of
             Inl e \<Rightarrow> Inl e
           | Inr cs \<Rightarrow> Inr (c # cs)))"

definition reverse_complement :: "string \<Rightarrow> error + string" where
  "reverse_complement sequence = complement_all (rev sequence)"

text \<open>The loop of \<open>main\<close> that brings the genes of the reverse strand back to the
  coordinates of the forward strand.\<close>

fun correct_genes :: "int \<Rightarrow> gene list \<Rightarrow> gene list" where
  "correct_genes len_seq_rc [] = []"
| "correct_genes len_seq_rc ((position3, position5) # positions) =
     (len_seq_rc - position5 + 1, len_seq_rc - position3 + 1)
       # correct_genes len_seq_rc positions"

text \<open>\<open>probable_genes\<close> as \<open>main\<close> computes it from the sequence and the three
  settings, with the patterns of \<open>main\<close>.\<close>

definition probable_genes :: "string \<Rightarrow> int \<Rightarrow> int \<Rightarrow> int \<Rightarrow> (error + gene list) option" where
  "probable_genes sequence min_gene_len max_sd min_gap =
     (case predict_genes sequence start_regex stop_regex shine_regex min_gene_len max_sd min_gap of
        None \<Rightarrow> None
      | Some (Inl e) \<Rightarrow> Some (Inl e)
      | Some (Inr genes_five_to_three_prime) \<Rightarrow>
          (case reverse_complement sequence of
             Inl e \<Rightarrow> Some (Inl e)
           | Inr sequence_rc \<Rightarrow>
               (case predict_genes sequence_rc start_regex stop_regex shine_regex
                       min_gene_len max_sd min_gap of
                  None \<Rightarrow> None
                | Some (Inl e) \<Rightarrow> Some (Inl e)
                | Some (Inr genes_three_to_five_prime) \<Rightarrow>
                    Some (Inr (genes_five_to_three_prime
                               @ correct_genes (int (length sequence_rc))
                                   genes_three_to_five_prime)))))"

section \<open>Notions the properties are stated with\<close>

text \<open>The codons the start and the stop pattern stand for (the comment in \<open>main\<close>
  lists them), the shortest text a pattern can match, the three bases at a 0-indexed
  position, and a stop codon in the reading frame of a start.\<close>

definition start_codons :: "string set" where
  "start_codons = {''ATT'', ''ATG'', ''TTG'', ''CTG'', ''GTG''}"

definition stop_codons :: "string set" where
  "stop_codons = {''TAA'', ''TAG'', ''TGA''}"

fun min_len :: "regex \<Rightarrow> nat" where
  "min_len Eps = 0"
| "min_len (Lit c) = 1"
| "min_len AnyChar = 1"
| "min_len (OneOf cs) = 1"
| "min_len (Opt r) = 0"
| "min_len (Cat r1 r2) = min_len r1 + min_len r2"
| "min_len (Alt r1 r2) = min (min_len r1) (min_len r2)"

definition codon_at :: "string \<Rightarrow> int \<Rightarrow> string" where
  "codon_at sequence p = (if p < 0 then [] else take 3 (drop (nat p) sequence))"

definition stop_in_frame :: "string \<Rightarrow> int \<Rightarrow> int \<Rightarrow> bool" where
  "stop_in_frame sequence start p \<longleftrightarrow>
     start \<le> p \<and> codon_at sequence p \<in> stop_codons \<and> p mod 3 = start mod 3"

text \<open>The Watson-Crick partner of a base, in the words of the specification.\<close>

definition watson_crick :: "char \<Rightarrow> char" where
  "watson_crick base =
     (if base = CHR ''A'' then CHR ''T''
      else if base = CHR ''T'' then CHR ''A''
      else if base = CHR ''C'' then CHR ''G''
      else if base = CHR ''G'' then CHR ''C''
      else base)"

section \<open>Facts about the patterns and the searches\<close>

lemma rmatch_min_len:
  "rest \<in> set (rmatch r s) \<Longrightarrow> length rest + min_len r \<le> length s"
proof (induction r arbitrary: s rest)
  case (Cat r1 r2)
  from Cat.prems obtain mid where m: "mid \<in> set (rmatch r1 s)" "rest \<in> set (rmatch r2 mid)"
    by auto
  from Cat.IH(1)[OF m(1)] Cat.IH(2)[OF m(2)] show ?case by simp
next
  case (Alt r1 r2)
  then show ?case by fastforce
next
  case (Opt r)
  then show ?case by fastforce
qed (auto split: list.splits if_splits)

lemma min_len_shine: "min_len shine_regex = 4"
  by (simp add: shine_regex_def)

lemma match_at_bounds:
  assumes "match_at r text i = Some j"
  shows "j \<le> length text" and "i \<le> length text \<Longrightarrow> i + min_len r \<le> j"
proof -
  from assms obtain rest where r: "rest \<in> set (rmatch r (drop i text))"
    and j: "j = length text - length rest"
    by (auto simp: match_at_def split: list.splits)
  show "j \<le> length text" using j by simp
  assume "i \<le> length text"
  with rmatch_min_len[OF r] j show "i + min_len r \<le> j" by simp
qed

lemma list3_cases:
  obtains "s = []" | a where "s = [a]" | a b where "s = [a, b]"
    | a b c rest where "s = a # b # c # rest"
proof (cases s)
  case Nil
  then show ?thesis using that by blast
next
  case (Cons a s1)
  then show ?thesis using that by (cases s1; cases "tl s1") auto
qed

lemma rmatch_start_regex:
  "rmatch start_regex s = [] \<longleftrightarrow> take 3 s \<notin> start_codons"
  by (cases s rule: list3_cases)
     (auto simp: start_regex_def start_codons_def numeral_3_eq_3)

lemma rmatch_stop_regex:
  "rmatch stop_regex s = [] \<longleftrightarrow> take 3 s \<notin> stop_codons"
  by (cases s rule: list3_cases)
     (auto simp: stop_regex_def stop_codons_def numeral_3_eq_3)

lemma rmatch_stop_regex_rest:
  "rest \<in> set (rmatch stop_regex s) \<Longrightarrow> length s = length rest + 3"
  by (cases s rule: list3_cases)
     (auto simp: stop_regex_def split: if_splits)

lemma rmatch_start_regex_rest:
  "rest \<in> set (rmatch start_regex s) \<Longrightarrow> length s = length rest + 3"
  by (cases s rule: list3_cases)
     (auto simp: start_regex_def split: if_splits)

lemma match_at_start_regex:
  "match_at start_regex text i = Some j \<longleftrightarrow>
     take 3 (drop i text) \<in> start_codons \<and> j = i + 3"
proof (cases "rmatch start_regex (drop i text)")
  case Nil
  then show ?thesis using rmatch_start_regex[of "drop i text"]
    by (simp add: match_at_def)
next
  case (Cons rest rs)
  then have "rest \<in> set (rmatch start_regex (drop i text))" by simp
  from rmatch_start_regex_rest[OF this] have l: "length text - i = length rest + 3" by simp
  from Cons rmatch_start_regex[of "drop i text"] have "take 3 (drop i text) \<in> start_codons"
    by simp
  with Cons l show ?thesis by (auto simp: match_at_def)
qed

lemma match_at_stop_regex:
  "match_at stop_regex text i = Some j \<longleftrightarrow>
     take 3 (drop i text) \<in> stop_codons \<and> j = i + 3"
proof (cases "rmatch stop_regex (drop i text)")
  case Nil
  then show ?thesis using rmatch_stop_regex[of "drop i text"]
    by (simp add: match_at_def)
next
  case (Cons rest rs)
  then have "rest \<in> set (rmatch stop_regex (drop i text))" by simp
  from rmatch_stop_regex_rest[OF this] have l: "length text - i = length rest + 3" by simp
  from Cons rmatch_stop_regex[of "drop i text"] have "take 3 (drop i text) \<in> stop_codons"
    by simp
  with Cons l show ?thesis by (auto simp: match_at_def)
qed

lemma stop_codons_apart:
  assumes "take 3 (drop i text) \<in> stop_codons" and "i < k" and "k < i + 3"
  shows "take 3 (drop k text) \<notin> stop_codons"
proof -
  obtain a b c rest where d: "drop i text = a # b # c # rest"
    using assms(1) by (cases "drop i text" rule: list3_cases) (auto simp: stop_codons_def)
  from assms(2,3) have "k = i + 1 \<or> k = i + 2" by arith
  moreover have "drop (i + 1) text = b # c # rest"
    using d by (metis add.commute drop_Suc_Cons drop_drop plus_1_eq_Suc drop0)
  moreover have "drop (i + 2) text = c # rest"
    using d by (metis add.commute add_2_eq_Suc' drop_Suc_Cons drop_drop drop0)
  ultimately show ?thesis using assms(1) d
    by (cases rest rule: list3_cases) (auto simp: stop_codons_def numeral_3_eq_3)
qed

lemma first_match_upt_None:
  "first_match r text [p ..< n] = None \<longleftrightarrow> (\<forall>k. p \<le> k \<and> k < n \<longrightarrow> match_at r text k = None)"
proof (induction "n - p" arbitrary: p)
  case 0
  then show ?case by auto
next
  case (Suc d)
  then have pn: "p < n" and d: "d = n - Suc p" by simp_all
  have split: "\<And>k. p \<le> k \<longleftrightarrow> k = p \<or> Suc p \<le> k" by auto
  have "(\<forall>k. p \<le> k \<and> k < n \<longrightarrow> match_at r text k = None) \<longleftrightarrow>
        match_at r text p = None \<and> (\<forall>k. Suc p \<le> k \<and> k < n \<longrightarrow> match_at r text k = None)"
    using pn by (auto simp: split)
  with Suc.hyps(1)[OF d] pn show ?case
    by (simp add: upt_conv_Cons split: option.splits)
qed

lemma first_match_upt_Some:
  "first_match r text [p ..< n] = Some (i, j) \<longleftrightarrow>
     p \<le> i \<and> i < n \<and> match_at r text i = Some j \<and>
     (\<forall>k. p \<le> k \<and> k < i \<longrightarrow> match_at r text k = None)"
proof (induction "n - p" arbitrary: p)
  case 0
  then show ?case by auto
next
  case (Suc d)
  then have pn: "p < n" and d: "d = n - Suc p" by simp_all
  have split: "\<And>k. p \<le> k \<longleftrightarrow> k = p \<or> Suc p \<le> k" by auto
  show ?case
  proof (cases "match_at r text p")
    case None
    have "(p \<le> i \<and> i < n \<and> match_at r text i = Some j \<and>
             (\<forall>k. p \<le> k \<and> k < i \<longrightarrow> match_at r text k = None)) \<longleftrightarrow>
          (Suc p \<le> i \<and> i < n \<and> match_at r text i = Some j \<and>
             (\<forall>k. Suc p \<le> k \<and> k < i \<longrightarrow> match_at r text k = None))"
      using None by (auto simp: split)
    with Suc.hyps(1)[OF d] pn None show ?thesis
      by (simp add: upt_conv_Cons)
  next
    case (Some j')
    have fm: "first_match r text [p ..< n] = Some (p, j')"
      using pn Some by (simp add: upt_conv_Cons)
    have "(p \<le> i \<and> i < n \<and> match_at r text i = Some j \<and>
             (\<forall>k. p \<le> k \<and> k < i \<longrightarrow> match_at r text k = None)) \<longleftrightarrow> i = p \<and> j = j'"
    proof
      assume h: "p \<le> i \<and> i < n \<and> match_at r text i = Some j \<and>
             (\<forall>k. p \<le> k \<and> k < i \<longrightarrow> match_at r text k = None)"
      have "\<not> p < i"
      proof
        assume "p < i"
        with h have "match_at r text p = None" by simp
        with Some show False by simp
      qed
      with h have "i = p" by simp
      with h Some show "i = p \<and> j = j'" by simp
    next
      assume "i = p \<and> j = j'"
      with Some pn show "p \<le> i \<and> i < n \<and> match_at r text i = Some j \<and>
             (\<forall>k. p \<le> k \<and> k < i \<longrightarrow> match_at r text k = None)" by auto
    qed
    with fm show ?thesis by auto
  qed
qed

lemma clamp_index_le: "clamp_index s i \<le> length s"
  by (simp add: clamp_index_def nat_le_iff)

lemma clamp_index_ge: "i \<le> int (clamp_index s i) \<or> int (length s) < i"
  by (simp add: clamp_index_def)

lemma clamp_index_id: "0 \<le> i \<Longrightarrow> i \<le> int (length s) \<Longrightarrow> int (clamp_index s i) = i"
  by (simp add: clamp_index_def)

text \<open>What find_start returns lies at or after the start of the search, inside the text.\<close>

lemma find_start_found:
  assumes "find_start r sequence start stop = Inr (Some cur)"
  shows "\<exists>i j. re_search r sequence start stop = Some (i, j) \<and> cur = int i"
  using assms
  by (auto simp: find_start_def pattern_search_def split: if_splits option.splits)

lemma find_start_bounds:
  assumes "find_start r sequence start (int (length sequence)) = Inr (Some cur)"
  shows "0 \<le> cur" and "start \<le> int (length sequence) \<Longrightarrow> start \<le> cur"
    and "cur \<le> int (length sequence)"
proof -
  from find_start_found[OF assms] obtain i j where
    fm: "first_match r sequence [clamp_index sequence start ..< Suc (length sequence)] = Some (i, j)"
    and cur: "cur = int i"
    by (auto simp: re_search_def clamp_index_def Let_def)
  from fm have b: "clamp_index sequence start \<le> i" "i \<le> length sequence"
    by (simp_all del: upt_Suc add: first_match_upt_Some)
  show "0 \<le> cur" using cur by simp
  show "cur \<le> int (length sequence)" using cur b by simp
  assume "start \<le> int (length sequence)"
  then show "start \<le> cur" using cur b clamp_index_ge[of start sequence] by linarith
qed

lemma find_start_codon:
  assumes "find_start start_regex sequence start (int (length sequence)) = Inr (Some cur)"
  shows "take 3 (drop (nat cur) sequence) \<in> start_codons"
proof -
  from find_start_found[OF assms] obtain i j where
    fm: "first_match start_regex sequence [clamp_index sequence start ..< Suc (length sequence)] = Some (i, j)"
    and cur: "cur = int i"
    by (auto simp: re_search_def clamp_index_def Let_def)
  then show ?thesis
    by (simp del: upt_Suc add: first_match_upt_Some match_at_start_regex)
qed

text \<open>The matches of the stop pattern never overlap, so the non-overlapping
  enumeration lists every occurrence of a stop codon.\<close>

lemma first_in_frame_finditer:
  assumes "sorted_wrt (<) is"
    and "\<forall>i \<in> set is. i < lo \<longrightarrow> take 3 (drop i s) \<notin> stop_codons"
  shows "first_in_frame f (finditer_from stop_regex s lo is) =
           map_option int (find (\<lambda>i. take 3 (drop i s) \<in> stop_codons \<and> int i mod 3 = f) is)"
  using assms
proof (induction "is" arbitrary: lo)
  case Nil
  then show ?case by simp
next
  case (Cons i "is")
  from Cons.prems(1) have srt: "sorted_wrt (<) is" and gt: "\<forall>k \<in> set is. i < k" by simp_all
  show ?case
  proof (cases "take 3 (drop i s) \<in> stop_codons")
    case False
    then have m: "match_at stop_regex s i = None"
      by (cases "match_at stop_regex s i") (simp_all add: match_at_stop_regex)
    have "\<forall>k \<in> set is. k < lo \<longrightarrow> take 3 (drop k s) \<notin> stop_codons"
      using Cons.prems(2) by simp
    from Cons.IH[OF srt this] False m show ?thesis by simp
  next
    case True
    then have m: "match_at stop_regex s i = Some (i + 3)"
      by (simp add: match_at_stop_regex)
    from True Cons.prems(2) have lo: "\<not> i < lo" by auto
    have "\<forall>k \<in> set is. k < i + 3 \<longrightarrow> take 3 (drop k s) \<notin> stop_codons"
      using gt stop_codons_apart[OF True] by blast
    from Cons.IH[OF srt this] True m lo show ?thesis by simp
  qed
qed

lemma find_stop_eq:
  "find_stop stop_regex sequence start =
     map_option int (find (\<lambda>i. take 3 (drop i sequence) \<in> stop_codons \<and> int i mod 3 = start mod 3)
        [clamp_index sequence start ..< Suc (length sequence)])"
  unfolding find_stop_def re_finditer_def Let_def
  by (rule first_in_frame_finditer) (simp_all del: upt_Suc)

lemma find_upt_None:
  "find P [p ..< n] = None \<longleftrightarrow> (\<forall>k. p \<le> k \<and> k < n \<longrightarrow> \<not> P k)"
  by (auto simp: find_None_iff)

lemma find_upt_Some:
  "find P [p ..< n] = Some i \<longleftrightarrow> p \<le> i \<and> i < n \<and> P i \<and> (\<forall>k. p \<le> k \<and> k < i \<longrightarrow> \<not> P k)"
proof (induction "n - p" arbitrary: p)
  case 0
  then show ?case by auto
next
  case (Suc d)
  then have pn: "p < n" and d: "d = n - Suc p" by simp_all
  have split: "\<And>k. p \<le> k \<longleftrightarrow> k = p \<or> Suc p \<le> k" by auto
  show ?case
  proof (cases "P p")
    case False
    have "(p \<le> i \<and> i < n \<and> P i \<and> (\<forall>k. p \<le> k \<and> k < i \<longrightarrow> \<not> P k)) \<longleftrightarrow>
          (Suc p \<le> i \<and> i < n \<and> P i \<and> (\<forall>k. Suc p \<le> k \<and> k < i \<longrightarrow> \<not> P k))"
      using False by (auto simp: split)
    with Suc.hyps(1)[OF d] pn False show ?thesis
      by (simp add: upt_conv_Cons)
  next
    case True
    have fm: "find P [p ..< n] = Some p"
      using pn True by (simp add: upt_conv_Cons)
    have "(p \<le> i \<and> i < n \<and> P i \<and> (\<forall>k. p \<le> k \<and> k < i \<longrightarrow> \<not> P k)) \<longleftrightarrow> i = p"
    proof
      assume h: "p \<le> i \<and> i < n \<and> P i \<and> (\<forall>k. p \<le> k \<and> k < i \<longrightarrow> \<not> P k)"
      have "\<not> p < i"
      proof
        assume "p < i"
        with h have "\<not> P p" by simp
        with True show False by simp
      qed
      with h show "i = p" by simp
    next
      assume "i = p"
      with True pn show "p \<le> i \<and> i < n \<and> P i \<and> (\<forall>k. p \<le> k \<and> k < i \<longrightarrow> \<not> P k)" by auto
    qed
    with fm show ?thesis by auto
  qed
qed

lemma stop_codon_inside:
  assumes "take 3 (drop i sequence) \<in> stop_codons"
  shows "i + 3 \<le> length sequence"
proof -
  have "\<forall>c \<in> stop_codons. length c = 3" by (simp add: stop_codons_def)
  with assms have "length (take 3 (drop i sequence)) = 3" by blast
  then show ?thesis by simp
qed

lemma stop_in_frame_nat:
  "stop_in_frame sequence start (int i) \<longleftrightarrow>
     clamp_index sequence start \<le> i \<and>
     take 3 (drop i sequence) \<in> stop_codons \<and> int i mod 3 = start mod 3"
proof (cases "take 3 (drop i sequence) \<in> stop_codons")
  case False
  then show ?thesis by (simp add: stop_in_frame_def codon_at_def)
next
  case True
  from stop_codon_inside[OF True] have "start \<le> int i \<longleftrightarrow> clamp_index sequence start \<le> i"
    by (auto simp: clamp_index_def)
  with True show ?thesis by (simp add: stop_in_frame_def codon_at_def)
qed

lemma stop_in_frame_nonneg:
  "stop_in_frame sequence start q \<Longrightarrow> 0 \<le> q"
  by (cases "q < 0") (auto simp: stop_in_frame_def codon_at_def stop_codons_def)

lemma find_stop_Some:
  "find_stop stop_regex sequence start = Some p \<longleftrightarrow>
     stop_in_frame sequence start p \<and> (\<forall>q. stop_in_frame sequence start q \<longrightarrow> p \<le> q)"
proof
  assume "find_stop stop_regex sequence start = Some p"
  then obtain i where p: "p = int i"
    and i: "clamp_index sequence start \<le> i"
      "take 3 (drop i sequence) \<in> stop_codons \<and> int i mod 3 = start mod 3"
    and least: "\<forall>k. clamp_index sequence start \<le> k \<and> k < i \<longrightarrow>
        \<not> (take 3 (drop k sequence) \<in> stop_codons \<and> int k mod 3 = start mod 3)"
    unfolding find_stop_eq by (auto simp del: upt_Suc simp: find_upt_Some)
  have "stop_in_frame sequence start p" using p i by (simp add: stop_in_frame_nat)
  moreover have "p \<le> q" if q: "stop_in_frame sequence start q" for q
  proof (rule ccontr)
    assume "\<not> p \<le> q"
    moreover from stop_in_frame_nonneg[OF q] obtain k where k: "q = int k"
      using nonneg_int_cases by blast
    ultimately have "k < i" using p by simp
    with least q k show False by (auto simp: stop_in_frame_nat)
  qed
  ultimately show "stop_in_frame sequence start p \<and> (\<forall>q. stop_in_frame sequence start q \<longrightarrow> p \<le> q)"
    by blast
next
  assume h: "stop_in_frame sequence start p \<and> (\<forall>q. stop_in_frame sequence start q \<longrightarrow> p \<le> q)"
  with stop_in_frame_nonneg obtain i where p: "p = int i"
    using nonneg_int_cases by blast
  from h p have i: "clamp_index sequence start \<le> i"
      "take 3 (drop i sequence) \<in> stop_codons" "int i mod 3 = start mod 3"
    by (simp_all add: stop_in_frame_nat)
  have "i < Suc (length sequence)" using stop_codon_inside[OF i(2)] by simp
  moreover have "\<forall>k. clamp_index sequence start \<le> k \<and> k < i \<longrightarrow>
        \<not> (take 3 (drop k sequence) \<in> stop_codons \<and> int k mod 3 = start mod 3)"
  proof (intro allI impI)
    fix k assume k: "clamp_index sequence start \<le> k \<and> k < i"
    show "\<not> (take 3 (drop k sequence) \<in> stop_codons \<and> int k mod 3 = start mod 3)"
    proof
      assume "take 3 (drop k sequence) \<in> stop_codons \<and> int k mod 3 = start mod 3"
      with k have "stop_in_frame sequence start (int k)" by (simp add: stop_in_frame_nat)
      with h have "p \<le> int k" by blast
      with p k show False by simp
    qed
  qed
  ultimately show "find_stop stop_regex sequence start = Some p"
    unfolding find_stop_eq using i p by (simp del: upt_Suc add: find_upt_Some)
qed

lemma find_stop_None:
  "find_stop stop_regex sequence start = None \<longleftrightarrow> (\<forall>q. \<not> stop_in_frame sequence start q)"
proof
  assume n: "find_stop stop_regex sequence start = None"
  show "\<forall>q. \<not> stop_in_frame sequence start q"
  proof (intro allI notI)
    fix q assume q: "stop_in_frame sequence start q"
    from stop_in_frame_nonneg[OF q] obtain k where k: "q = int k"
      using nonneg_int_cases by blast
    from q k have kk: "clamp_index sequence start \<le> k"
      "take 3 (drop k sequence) \<in> stop_codons" "int k mod 3 = start mod 3"
      by (simp_all add: stop_in_frame_nat)
    have "k < Suc (length sequence)" using stop_codon_inside[OF kk(2)] by simp
    with n kk show False
      unfolding find_stop_eq by (simp del: upt_Suc add: find_upt_None)
  qed
next
  assume "\<forall>q. \<not> stop_in_frame sequence start q"
  then have "\<forall>k. \<not> stop_in_frame sequence start (int k)" by blast
  then show "find_stop stop_regex sequence start = None"
    unfolding find_stop_eq by (simp del: upt_Suc add: find_upt_None stop_in_frame_nat)
qed

section \<open>Facts about the loop\<close>

lemma clamp_index_window:
  assumes "0 \<le> x" and "y \<le> x + int d"
  shows "clamp_index s y \<le> clamp_index s x + d"
proof -
  have "int (clamp_index s y) \<le> int (clamp_index s x) + int d"
    using assms unfolding clamp_index_def by (simp split: if_splits)
  then show ?thesis by linarith
qed

lemma has_shine_dalgarno_short_window:
  assumes "max_sd \<le> 9"
  shows "has_shine_dalgarno shine_regex sequence start max_sd \<noteq> Inr True"
proof
  assume h: "has_shine_dalgarno shine_regex sequence start max_sd = Inr True"
  define p where "p = clamp_index sequence (start - max_sd)"
  define e where "e = clamp_index sequence (start - 6)"
  from h have nonneg: "0 \<le> start - max_sd"
    by (simp add: has_shine_dalgarno_def Let_def split: if_splits)
  from h have "re_search shine_regex sequence (start - max_sd) (start - 6) \<noteq> None"
    by (auto simp: has_shine_dalgarno_def pattern_search_def Let_def
             split: if_splits sum.splits)
  then obtain i j where "first_match shine_regex (take e sequence) [p ..< Suc e] = Some (i, j)"
    unfolding re_search_def Let_def p_def e_def by (simp del: upt_Suc) blast
  then have i: "p \<le> i" "i \<le> e" and m: "match_at shine_regex (take e sequence) i = Some j"
    by (simp_all del: upt_Suc add: first_match_upt_Some)
  have e_le: "e \<le> length sequence"
    by (simp add: e_def clamp_index_le)
  then have len: "length (take e sequence) = e" by simp
  from match_at_bounds(1)[OF m] len have "j \<le> e" by simp
  moreover from match_at_bounds(2)[OF m] len i have "i + 4 \<le> j"
    by (simp add: min_len_shine)
  ultimately have "p + 4 \<le> e" using i by simp
  moreover have "e \<le> p + 3"
    unfolding p_def e_def using assms by (intro clamp_index_window[OF nonneg]) simp
  ultimately show False by simp
qed

text \<open>So with such a distance the function returns false, unless a bound of the search
  does not fit \<open>ssize_t\<close>.\<close>

lemma has_shine_dalgarno_short_window_value:
  assumes "max_sd \<le> 9"
  shows "has_shine_dalgarno shine_regex sequence start max_sd =
           (if 0 \<le> start - max_sd \<and> \<not> (fits_ssize_t (start - max_sd) \<and> fits_ssize_t (start - 6))
            then Inl OverflowError else Inr False)"
proof (cases "0 \<le> start - max_sd \<and> \<not> (fits_ssize_t (start - max_sd) \<and> fits_ssize_t (start - 6))")
  case True
  then show ?thesis
    by (auto simp: has_shine_dalgarno_def pattern_search_def Let_def)
next
  case False
  then have "\<exists>found. has_shine_dalgarno shine_regex sequence start max_sd = Inr found"
    by (auto simp: has_shine_dalgarno_def pattern_search_def Let_def)
  then obtain found where f: "has_shine_dalgarno shine_regex sequence start max_sd = Inr found" ..
  with has_shine_dalgarno_short_window[OF assms, of sequence start] have "\<not> found" by auto
  with f False show ?thesis by simp
qed

lemma loop_body_cases:
  assumes "loop_body sequence sr pr hr min_gene_len max_sd min_gap c g = Inr (c', g')"
  obtains
    (no_start) "find_start sr sequence c (int (length sequence)) = Inr None" "c' = None" "g' = g"
  | (reject) s where "find_start sr sequence c (int (length sequence)) = Inr (Some s)"
      "c' = Some (s + 1)" "g' = g"
  | (accept) s st where "find_start sr sequence c (int (length sequence)) = Inr (Some s)"
      "find_stop pr sequence s = Some st" "min_gene_len \<le> st - s"
      "has_shine_dalgarno hr sequence s max_sd = Inr True"
      "c' = Some (st + 3 + min_gap)" "g' = g @ [(s + 1, st + 3)]"
proof (cases "find_start sr sequence c (int (length sequence))")
  case (Inl e)
  with assms show ?thesis by (simp add: loop_body_def)
next
  case (Inr found)
  show ?thesis
  proof (cases found)
    case None
    with assms Inr show ?thesis by (intro no_start) (simp_all add: loop_body_def)
  next
    case (Some s)
    with Inr have fs: "find_start sr sequence c (int (length sequence)) = Inr (Some s)" by simp
    show ?thesis
    proof (cases "find_stop pr sequence s")
      case None
      with assms fs show ?thesis by (intro reject[of s]) (simp_all add: loop_body_def)
    next
      case (Some st)
      note fp = this
      show ?thesis
      proof (cases "min_gene_len \<le> st - s")
        case False
        with assms fs fp show ?thesis by (intro reject[of s]) (simp_all add: loop_body_def)
      next
        case True
        show ?thesis
        proof (cases "has_shine_dalgarno hr sequence s max_sd")
          case (Inl e)
          with assms fs fp True show ?thesis by (simp add: loop_body_def)
        next
          case (Inr motif)
          show ?thesis
          proof (cases motif)
            case True
            with assms fs fp \<open>min_gene_len \<le> st - s\<close> Inr show ?thesis
              by (intro accept[of s st]) (simp_all add: loop_body_def)
          next
            case False
            with assms fs fp \<open>min_gene_len \<le> st - s\<close> Inr show ?thesis
              by (intro reject[of s]) (simp_all add: loop_body_def)
          qed
        qed
      qed
    qed
  qed
qed

text \<open>An invariant of the cursor and the list that the body of the loop keeps holds
  of the list the loop returns.\<close>

lemma predict_loop_invariant:
  assumes run: "predict_loop sequence sr pr hr min_gene_len max_sd min_gap cur genes = Some (Inr out)"
    and init: "I cur genes"
    and step: "\<And>c g c' g'. I (Some c) g \<Longrightarrow> min_gap \<le> int (length sequence) - c \<Longrightarrow>
        loop_body sequence sr pr hr min_gene_len max_sd min_gap c g = Inr (c', g') \<Longrightarrow> I c' g'"
  shows "\<exists>c. I (Some c) out \<and> int (length sequence) - c < min_gap"
proof -
  define P where "P = (\<lambda>sequence' sr' pr' hr' min_gene_len' max_sd' min_gap' cur' genes'
        (y :: error + gene list).
        sequence' = sequence \<longrightarrow> sr' = sr \<longrightarrow> pr' = pr \<longrightarrow> hr' = hr \<longrightarrow>
        min_gene_len' = min_gene_len \<longrightarrow> max_sd' = max_sd \<longrightarrow> min_gap' = min_gap \<longrightarrow>
        I cur' genes' \<longrightarrow>
        (\<forall>out. y = Inr out \<longrightarrow> (\<exists>c. I (Some c) out \<and> int (length sequence) - c < min_gap)))"
  have "P sequence sr pr hr min_gene_len max_sd min_gap cur genes (Inr out)"
  proof (rule predict_loop.raw_induct[OF _ run])
    fix loop :: "string \<Rightarrow> regex \<Rightarrow> regex \<Rightarrow> regex \<Rightarrow> int \<Rightarrow> int \<Rightarrow> int
        \<Rightarrow> int option \<Rightarrow> gene list \<Rightarrow> (error + gene list) option"
      and sequence' sr' pr' hr' min_gene_len' max_sd' min_gap' cur' genes' y
    assume IH: "\<And>sr' pr' hr' min_gene_len' max_sd' min_gap' cur' genes' b y.
        loop sr' pr' hr' min_gene_len' max_sd' min_gap' cur' genes' b = Some y \<Longrightarrow>
        P sr' pr' hr' min_gene_len' max_sd' min_gap' cur' genes' b y"
      and body: "(case cur' of
          None \<Rightarrow> Some (Inl TypeError)
        | Some c \<Rightarrow>
            if min_gap' \<le> int (length sequence') - c
            then case loop_body sequence' sr' pr' hr' min_gene_len' max_sd' min_gap' c genes' of
                   Inl e \<Rightarrow> Some (Inl e)
                 | Inr (current_pos', find_genes') \<Rightarrow>
                     loop sequence' sr' pr' hr' min_gene_len' max_sd' min_gap'
                       current_pos' find_genes'
            else Some (Inr genes')) = Some y"
    show "P sequence' sr' pr' hr' min_gene_len' max_sd' min_gap' cur' genes' y"
      unfolding P_def
    proof (intro impI allI)
      fix res
      assume eqs: "sequence' = sequence" "sr' = sr" "pr' = pr" "hr' = hr"
        "min_gene_len' = min_gene_len" "max_sd' = max_sd" "min_gap' = min_gap"
        and inv: "I cur' genes'" and y: "y = Inr res"
      show "\<exists>c. I (Some c) res \<and> int (length sequence) - c < min_gap"
      proof (cases cur')
        case None
        with body y show ?thesis by simp
      next
        case (Some c)
        show ?thesis
        proof (cases "min_gap \<le> int (length sequence) - c")
          case False
          with body Some eqs y have "res = genes'" by simp
          with inv Some False show ?thesis by auto
        next
          case True
          have "\<exists>c' g'. loop_body sequence sr pr hr min_gene_len max_sd min_gap c genes'
              = Inr (c', g')"
          proof (cases "loop_body sequence sr pr hr min_gene_len max_sd min_gap c genes'")
            case (Inl e)
            with body Some eqs True y show ?thesis by simp
          next
            case (Inr state)
            then show ?thesis by (cases state) simp
          qed
          then obtain c' g' where lb:
            "loop_body sequence sr pr hr min_gene_len max_sd min_gap c genes' = Inr (c', g')"
            by blast
          from inv Some have "I (Some c) genes'" by simp
          from step[OF this True lb] have inv': "I c' g'" .
          from body Some eqs True lb
          have "loop sequence sr pr hr min_gene_len max_sd min_gap c' g' = Some y" by simp
          from IH[OF this] have "P sequence sr pr hr min_gene_len max_sd min_gap c' g' y" .
          with inv' y show ?thesis unfolding P_def by simp
        qed
      qed
    qed
  qed
  with init show ?thesis unfolding P_def by simp
qed

section \<open>The properties\<close>

text \<open>When the loop is still active and no start codon is left, the scan raises.\<close>

lemma predict_loop_no_start:
  assumes "min_gap \<le> int (length sequence) - c"
    and "find_start sr sequence c (int (length sequence)) = Inr None"
  shows "predict_loop sequence sr pr hr min_gene_len max_sd min_gap (Some c) g = Some (Inl TypeError)"
proof -
  have lb: "loop_body sequence sr pr hr min_gene_len max_sd min_gap c g = Inr (None, g)"
    using assms(2) by (simp add: loop_body_def)
  have "predict_loop sequence sr pr hr min_gene_len max_sd min_gap (Some c) g =
        predict_loop sequence sr pr hr min_gene_len max_sd min_gap None g"
    using assms(1) lb by (subst predict_loop.simps) simp
  also have "\<dots> = Some (Inl TypeError)"
    by (subst predict_loop.simps) simp
  finally show ?thesis .
qed

text \<open>C1.  On the sequence \<open>ATGAAAAAATAG\<close> with \<open>min_gene_len = 3\<close>,
  \<open>min_gap = 0\<close> and \<open>max_shine_dalgarno_distance = 0\<close> the scan does not return the
  empty list: after the start at 0 is rejected no start codon is left, \<open>find_start\<close>
  returns \<open>None\<close>, and the loop condition raises \<open>TypeError\<close>.\<close>

theorem C1_scenario_raises_TypeError:
  "predict_genes ''ATGAAAAAATAG'' start_regex stop_regex shine_regex 3 0 0 = Some (Inl TypeError)"
  by code_simp

lemma complement_all_valid:
  "set xs \<subseteq> {CHR ''A'', CHR ''C'', CHR ''G'', CHR ''T''} \<Longrightarrow>
     complement_all xs = Inr (map watson_crick xs)"
  by (induction xs) (auto simp: complement_def watson_crick_def)

lemma complement_dom:
  "complement base \<noteq> None \<longleftrightarrow> base \<in> {CHR ''A'', CHR ''C'', CHR ''G'', CHR ''T''}"
  by (simp add: complement_def)

lemma complement_all_invalid:
  "\<not> set xs \<subseteq> {CHR ''A'', CHR ''C'', CHR ''G'', CHR ''T''} \<Longrightarrow>
     \<exists>e. complement_all xs = Inl e"
proof (induction xs)
  case Nil
  then show ?case by simp
next
  case (Cons base rest)
  show ?case
  proof (cases "complement base")
    case None
    then show ?thesis by simp
  next
    case (Some c)
    then have "base \<in> {CHR ''A'', CHR ''C'', CHR ''G'', CHR ''T''}"
      using complement_dom[of base] by simp
    with Cons.prems have "\<not> set rest \<subseteq> {CHR ''A'', CHR ''C'', CHR ''G'', CHR ''T''}"
      by auto
    from Cons.IH[OF this] obtain e where "complement_all rest = Inl e" ..
    with Some show ?thesis by simp
  qed
qed

lemma complement_all_length:
  "complement_all xs = Inr ys \<Longrightarrow> length ys = length xs"
  by (induction xs arbitrary: ys) (auto split: option.splits sum.splits)

text \<open>C9.  \<open>reverse_complement\<close> raises exactly when the sequence has a character
  outside A, C, G, T; on a valid sequence it returns the reversed sequence with every
  base replaced by its Watson-Crick partner.\<close>

theorem C9_reverse_complement:
  "((\<exists>e. reverse_complement sequence = Inl e) \<longleftrightarrow>
      \<not> set sequence \<subseteq> {CHR ''A'', CHR ''C'', CHR ''G'', CHR ''T''}) \<and>
   (set sequence \<subseteq> {CHR ''A'', CHR ''C'', CHR ''G'', CHR ''T''} \<longrightarrow>
      reverse_complement sequence = Inr (map watson_crick (rev sequence)))"
proof (cases "set sequence \<subseteq> {CHR ''A'', CHR ''C'', CHR ''G'', CHR ''T''}")
  case True
  then have "set (rev sequence) \<subseteq> {CHR ''A'', CHR ''C'', CHR ''G'', CHR ''T''}" by simp
  from complement_all_valid[OF this] True show ?thesis
    by (simp add: reverse_complement_def)
next
  case False
  then have "\<not> set (rev sequence) \<subseteq> {CHR ''A'', CHR ''C'', CHR ''G'', CHR ''T''}" by simp
  from complement_all_invalid[OF this] False show ?thesis
    by (simp add: reverse_complement_def)
qed

text \<open>The theorem of C9 at a valid and at an invalid sequence.\<close>

theorem C9_reverse_complement_witness:
  "reverse_complement ''GGAGCCCCCCATGTAA'' = Inr ''TTACATGGGGGGCTCC'' \<and>
   (\<exists>e. reverse_complement ''GGAGNCC'' = Inl e)"
  using C9_reverse_complement[of "''GGAGCCCCCCATGTAA''"] C9_reverse_complement[of "''GGAGNCC''"]
  by (simp add: watson_crick_def)

lemma correct_genes_map:
  "correct_genes L genes = map (\<lambda>(s, e). (L - e + 1, L - s + 1)) genes"
  by (induction L genes rule: correct_genes.induct) simp_all

lemma reverse_complement_length:
  "reverse_complement sequence = Inr rc \<Longrightarrow> length rc = length sequence"
  using complement_all_length[of "rev sequence" rc] by (simp add: reverse_complement_def)

lemma probable_genes_Inr:
  assumes "probable_genes sequence min_gene_len max_sd min_gap = Some (Inr out)"
  obtains fwd rc rv where
    "predict_genes sequence start_regex stop_regex shine_regex min_gene_len max_sd min_gap
       = Some (Inr fwd)"
    "reverse_complement sequence = Inr rc"
    "predict_genes rc start_regex stop_regex shine_regex min_gene_len max_sd min_gap
       = Some (Inr rv)"
    "out = fwd @ correct_genes (int (length rc)) rv"
  using assms unfolding probable_genes_def
  by (simp split: option.splits sum.splits)

text \<open>C8.  The loop of \<open>main\<close> sends each pair \<open>(s', e')\<close> found on the reverse
  complement to \<open>(L - e' + 1, L - s' + 1)\<close>, applying it twice with the same \<open>L\<close> gives
  the pairs back, and in the output of \<open>main\<close> the \<open>L\<close> is the length of the sequence.\<close>

theorem C8_remap:
  "correct_genes L genes = map (\<lambda>(s, e). (L - e + 1, L - s + 1)) genes \<and>
   correct_genes L (correct_genes L genes) = genes \<and>
   (probable_genes sequence min_gene_len max_sd min_gap = Some (Inr out) \<longrightarrow>
     (\<exists>fwd rc rv.
        predict_genes sequence start_regex stop_regex shine_regex min_gene_len max_sd min_gap
          = Some (Inr fwd) \<and>
        reverse_complement sequence = Inr rc \<and>
        predict_genes rc start_regex stop_regex shine_regex min_gene_len max_sd min_gap
          = Some (Inr rv) \<and>
        out = fwd @ map (\<lambda>(s, e). (int (length sequence) - e + 1, int (length sequence) - s + 1)) rv))"
proof (intro conjI impI)
  show "correct_genes L genes = map (\<lambda>(s, e). (L - e + 1, L - s + 1)) genes"
    by (rule correct_genes_map)
  show "correct_genes L (correct_genes L genes) = genes"
    by (induction L genes rule: correct_genes.induct) simp_all
next
  assume "probable_genes sequence min_gene_len max_sd min_gap = Some (Inr out)"
  then obtain fwd rc rv where h:
    "predict_genes sequence start_regex stop_regex shine_regex min_gene_len max_sd min_gap
       = Some (Inr fwd)"
    "reverse_complement sequence = Inr rc"
    "predict_genes rc start_regex stop_regex shine_regex min_gene_len max_sd min_gap
       = Some (Inr rv)"
    "out = fwd @ correct_genes (int (length rc)) rv"
    by (rule probable_genes_Inr)
  from h(2) have "length rc = length sequence" by (rule reverse_complement_length)
  with h show "\<exists>fwd rc rv.
        predict_genes sequence start_regex stop_regex shine_regex min_gene_len max_sd min_gap
          = Some (Inr fwd) \<and>
        reverse_complement sequence = Inr rc \<and>
        predict_genes rc start_regex stop_regex shine_regex min_gene_len max_sd min_gap
          = Some (Inr rv) \<and>
        out = fwd @ map (\<lambda>(s, e). (int (length sequence) - e + 1, int (length sequence) - s + 1)) rv"
    by (auto simp: correct_genes_map)
qed

text \<open>The theorem of C8 on a sequence with one gene on each strand.\<close>

theorem C8_remap_witness:
  "probable_genes ''GGAGCCCCCCATGTAATTACATGGGGGGCTCC'' 3 10 12 = Some (Inr [(11, 16), (17, 22)]) \<and>
   correct_genes 32 [(11, 16)] = [(17, 22)] \<and>
   correct_genes 32 (correct_genes 32 [(11, 16)]) = [(11, 16)] \<and>
   (\<exists>fwd rc rv.
        predict_genes ''GGAGCCCCCCATGTAATTACATGGGGGGCTCC'' start_regex stop_regex shine_regex 3 10 12
          = Some (Inr fwd) \<and>
        reverse_complement ''GGAGCCCCCCATGTAATTACATGGGGGGCTCC'' = Inr rc \<and>
        predict_genes rc start_regex stop_regex shine_regex 3 10 12 = Some (Inr rv) \<and>
        [(11, 16), (17, 22)] = fwd @ map (\<lambda>(s, e). (32 - e + 1, 32 - s + 1)) rv)"
proof -
  have run: "probable_genes ''GGAGCCCCCCATGTAATTACATGGGGGGCTCC'' 3 10 12
      = Some (Inr [(11, 16), (17, 22)])"
    by code_simp
  from C8_remap[of 32 "[(11, 16)]" "''GGAGCCCCCCATGTAATTACATGGGGGGCTCC''" 3 10 12
      "[(11, 16), (17, 22)]"] run
  show ?thesis by simp
qed

text \<open>C2, as stated, fails.  In \<open>GGAGCCCCCCATGTAA\<close> the start at 10 has its in-frame
  stop at 13, so the ORF length \<open>stop + 3 - start\<close> is 6; with \<open>min_gene_len = 5\<close> the
  claim sends the candidate on to the motif check, which it passes, yet the body rejects
  it: the cursor moves to 11 and nothing is recorded.\<close>

theorem C2_counterexample:
  "find_start start_regex ''GGAGCCCCCCATGTAA'' 0 (int (length ''GGAGCCCCCCATGTAA'')) = Inr (Some 10) \<and>
   find_stop stop_regex ''GGAGCCCCCCATGTAA'' 10 = Some 13 \<and>
   \<not> ((13::int) + 3 - 10 < 5) \<and>
   has_shine_dalgarno shine_regex ''GGAGCCCCCCATGTAA'' 10 10 = Inr True \<and>
   loop_body ''GGAGCCCCCCATGTAA'' start_regex stop_regex shine_regex 5 10 6 0 []
     = Inr (Some 11, [])"
  by code_simp

text \<open>C2, amended.  The gate of the code compares \<open>stop - start\<close>, the length without
  the stop codon, with \<open>min_gene_len\<close>: a candidate with an in-frame stop is rejected on
  length grounds (cursor advanced by 1, nothing recorded) exactly when
  \<open>stop - start < min_gene_len\<close>, and every other candidate goes on to the motif check,
  which alone decides between acceptance and rejection (an error it raises is passed
  on).\<close>

theorem C2_length_gate:
  assumes "find_start sr sequence c (int (length sequence)) = Inr (Some s)"
    and "find_stop pr sequence s = Some st"
  shows "(st - s < min_gene_len \<longrightarrow>
            loop_body sequence sr pr hr min_gene_len max_sd min_gap c g
              = Inr (Some (s + 1), g)) \<and>
         (min_gene_len \<le> st - s \<longrightarrow>
            loop_body sequence sr pr hr min_gene_len max_sd min_gap c g =
              (case has_shine_dalgarno hr sequence s max_sd of
                 Inl e \<Rightarrow> Inl e
               | Inr found \<Rightarrow>
                   if found then Inr (Some (st + 3 + min_gap), g @ [(s + 1, st + 3)])
                   else Inr (Some (s + 1), g)))"
  using assms by (simp add: loop_body_def)

text \<open>The amended C2 on the candidate of the counterexample, rejected by the gate at
  \<open>min_gene_len = 4\<close> and accepted at \<open>min_gene_len = 3\<close>.\<close>

theorem C2_length_gate_witness:
  "find_start start_regex ''GGAGCCCCCCATGTAA'' 0 (int (length ''GGAGCCCCCCATGTAA'')) = Inr (Some 10) \<and>
   find_stop stop_regex ''GGAGCCCCCCATGTAA'' 10 = Some 13 \<and>
   loop_body ''GGAGCCCCCCATGTAA'' start_regex stop_regex shine_regex 4 10 6 0 []
     = Inr (Some 11, []) \<and>
   loop_body ''GGAGCCCCCCATGTAA'' start_regex stop_regex shine_regex 3 10 6 0 []
     = Inr (Some 22, [(11, 16)])"
proof -
  have fs: "find_start start_regex ''GGAGCCCCCCATGTAA'' 0 (int (length ''GGAGCCCCCCATGTAA'')) = Inr (Some 10)"
    by code_simp
  have fp: "find_stop stop_regex ''GGAGCCCCCCATGTAA'' 10 = Some 13"
    by code_simp
  have sd: "has_shine_dalgarno shine_regex ''GGAGCCCCCCATGTAA'' 10 10 = Inr True"
    by code_simp
  from C2_length_gate[OF fs fp, of 4 shine_regex 10 6 "[]"]
       C2_length_gate[OF fs fp, of 3 shine_regex 10 6 "[]"] fs fp sd
  show ?thesis by simp
qed

text \<open>C6.  With the stop pattern of \<open>main\<close>, \<open>find_stop\<close> returns the leftmost position
  at or after \<open>start\<close> that holds a stop codon in the reading frame of \<open>start\<close>, and
  \<open>None\<close> when there is none: the non-overlapping enumeration skips no occurrence.\<close>

theorem C6_find_stop_leftmost_in_frame:
  "(find_stop stop_regex sequence start = Some p \<longleftrightarrow>
      stop_in_frame sequence start p \<and> (\<forall>q. stop_in_frame sequence start q \<longrightarrow> p \<le> q)) \<and>
   (find_stop stop_regex sequence start = None \<longleftrightarrow> (\<forall>q. \<not> stop_in_frame sequence start q))"
  using find_stop_Some[of sequence start p] find_stop_None[of sequence start] by blast

text \<open>The theorem of C6 on \<open>ATGAAAAAATAG\<close>: from 0 the stop TGA at 1 is out of frame
  and TAG at 9 is returned; from 1 it is TGA at 1; from 2 there is none.\<close>

theorem C6_find_stop_leftmost_in_frame_witness:
  "find_stop stop_regex ''ATGAAAAAATAG'' 0 = Some 9 \<and>
   codon_at ''ATGAAAAAATAG'' 1 \<in> stop_codons \<and>
   stop_in_frame ''ATGAAAAAATAG'' 0 9 \<and>
   \<not> stop_in_frame ''ATGAAAAAATAG'' 0 1 \<and>
   find_stop stop_regex ''ATGAAAAAATAG'' 1 = Some 1 \<and>
   find_stop stop_regex ''ATGAAAAAATAG'' 2 = None \<and>
   \<not> stop_in_frame ''ATGAAAAAATAG'' 2 9"
proof -
  have a: "find_stop stop_regex ''ATGAAAAAATAG'' 0 = Some 9" by code_simp
  have b: "find_stop stop_regex ''ATGAAAAAATAG'' 2 = None" by code_simp
  have c: "find_stop stop_regex ''ATGAAAAAATAG'' 1 = Some 1" by code_simp
  have d: "codon_at ''ATGAAAAAATAG'' 1 \<in> stop_codons"
    by (simp add: codon_at_def stop_codons_def)
  from C6_find_stop_leftmost_in_frame[of "''ATGAAAAAATAG''" 0 9] a
  have e: "stop_in_frame ''ATGAAAAAATAG'' 0 9"
    and f: "\<forall>q. stop_in_frame ''ATGAAAAAATAG'' 0 q \<longrightarrow> 9 \<le> q"
    by simp_all
  from f have g: "\<not> stop_in_frame ''ATGAAAAAATAG'' 0 1" by fastforce
  from C6_find_stop_leftmost_in_frame[of "''ATGAAAAAATAG''" 2 0] b
  have h: "\<not> stop_in_frame ''ATGAAAAAATAG'' 2 9" by simp
  from a b c d e g h show ?thesis by simp
qed

text \<open>The invariant rule for a whole scan.\<close>

lemma predict_genes_invariant:
  assumes run: "predict_genes sequence sr pr hr min_gene_len max_sd min_gap = Some (Inr out)"
    and init: "I (Some 0) []"
    and step: "\<And>c g c' g'. I (Some c) g \<Longrightarrow> min_gap \<le> int (length sequence) - c \<Longrightarrow>
        loop_body sequence sr pr hr min_gene_len max_sd min_gap c g = Inr (c', g') \<Longrightarrow> I c' g'"
  shows "\<exists>c. I (Some c) out"
proof -
  have "\<exists>c. I (Some c) out \<and> int (length sequence) - c < min_gap"
  proof (rule predict_loop_invariant[where I = I and cur = "Some 0" and genes = "[]"])
    show "predict_loop sequence sr pr hr min_gene_len max_sd min_gap (Some 0) [] = Some (Inr out)"
      using run by (simp add: predict_genes_def)
    show "I (Some 0) []" by (rule init)
  next
    fix c g c' g'
    assume "I (Some c) g" "min_gap \<le> int (length sequence) - c"
      "loop_body sequence sr pr hr min_gene_len max_sd min_gap c g = Inr (c', g')"
    then show "I c' g'" by (rule step)
  qed
  then show ?thesis by blast
qed

text \<open>Every accepted gene passed the length gate and the motif gate.\<close>

lemma predict_genes_length:
  assumes "predict_genes sequence sr pr hr min_gene_len max_sd min_gap = Some (Inr genes)"
  shows "\<forall>(a, b) \<in> set genes. min_gene_len + 3 \<le> b - a + 1"
proof -
  define I where "I = (\<lambda>(cur :: int option) (g :: gene list).
      \<forall>(a, b) \<in> set g. min_gene_len + 3 \<le> b - a + 1)"
  have "\<exists>c. I (Some c) genes"
  proof (rule predict_genes_invariant[OF assms])
    show "I (Some 0) []" by (simp add: I_def)
  next
    fix c g c' g'
    assume inv: "I (Some c) g"
      and lb: "loop_body sequence sr pr hr min_gene_len max_sd min_gap c g = Inr (c', g')"
    from lb show "I c' g'"
    proof (cases rule: loop_body_cases)
      case no_start
      with inv show ?thesis by (simp add: I_def)
    next
      case (reject s)
      with inv show ?thesis by (simp add: I_def)
    next
      case (accept s st)
      with inv show ?thesis by (auto simp: I_def)
    qed
  qed
  then show ?thesis by (simp add: I_def)
qed

lemma predict_genes_motif:
  assumes "predict_genes sequence sr pr hr min_gene_len max_sd min_gap = Some (Inr genes)"
  shows "\<forall>(a, b) \<in> set genes. has_shine_dalgarno hr sequence (a - 1) max_sd = Inr True"
proof -
  define I where "I = (\<lambda>(cur :: int option) (g :: gene list).
      \<forall>(a, b) \<in> set g. has_shine_dalgarno hr sequence (a - 1) max_sd = Inr True)"
  have "\<exists>c. I (Some c) genes"
  proof (rule predict_genes_invariant[OF assms])
    show "I (Some 0) []" by (simp add: I_def)
  next
    fix c g c' g'
    assume inv: "I (Some c) g"
      and lb: "loop_body sequence sr pr hr min_gene_len max_sd min_gap c g = Inr (c', g')"
    from lb show "I c' g'"
    proof (cases rule: loop_body_cases)
      case no_start
      with inv show ?thesis by (simp add: I_def)
    next
      case (reject s)
      with inv show ?thesis by (simp add: I_def)
    next
      case (accept s st)
      with inv show ?thesis by (auto simp: I_def)
    qed
  qed
  then show ?thesis by (simp add: I_def)
qed

text \<open>C3.  Every gene of the final list of \<open>main\<close>, from the forward strand or brought
  back from the reverse strand, has \<open>stop - start + 1 \<ge> min_gene_len\<close>.\<close>

theorem C3_min_gene_len:
  assumes "probable_genes sequence min_gene_len max_sd min_gap = Some (Inr genes)"
    and "(start, stop) \<in> set genes"
  shows "min_gene_len \<le> stop - start + 1"
proof -
  from assms(1) obtain fwd rc rv where h:
    "predict_genes sequence start_regex stop_regex shine_regex min_gene_len max_sd min_gap
       = Some (Inr fwd)"
    "predict_genes rc start_regex stop_regex shine_regex min_gene_len max_sd min_gap
       = Some (Inr rv)"
    "genes = fwd @ correct_genes (int (length rc)) rv"
    by (rule probable_genes_Inr)
  from assms(2) h(3) consider (fwd) "(start, stop) \<in> set fwd"
    | (rv) s e where "(s, e) \<in> set rv" "start = int (length rc) - e + 1"
        "stop = int (length rc) - s + 1"
    by (auto simp: correct_genes_map)
  then show ?thesis
  proof cases
    case fwd
    with predict_genes_length[OF h(1)] show ?thesis by auto
  next
    case rv
    with predict_genes_length[OF h(2)] show ?thesis by auto
  qed
qed

text \<open>The theorem of C3 on a sequence with one gene on each strand.\<close>

theorem C3_min_gene_len_witness:
  "probable_genes ''GGAGCCCCCCATGTAATTACATGGGGGGCTCC'' 3 10 12 = Some (Inr [(11, 16), (17, 22)]) \<and>
   (3::int) \<le> 16 - 11 + 1 \<and> (3::int) \<le> 22 - 17 + 1"
proof -
  have run: "probable_genes ''GGAGCCCCCCATGTAATTACATGGGGGGCTCC'' 3 10 12
      = Some (Inr [(11, 16), (17, 22)])"
    by code_simp
  from C3_min_gene_len[OF run, of 11 16] C3_min_gene_len[OF run, of 17 22] run
  show ?thesis by simp
qed

text \<open>C7.  \<open>has_shine_dalgarno\<close> is false whenever \<open>start - max_distance < 0\<close>, so no
  gene that \<open>predict_genes\<close> reports starts (0-indexed) before \<open>max_distance\<close>.\<close>

theorem C7_no_gene_before_max_distance:
  "(start - max_sd < 0 \<longrightarrow> has_shine_dalgarno hr sequence start max_sd = Inr False) \<and>
   (predict_genes sequence sr pr hr min_gene_len max_sd min_gap = Some (Inr genes) \<longrightarrow>
      (\<forall>(a, b) \<in> set genes. max_sd \<le> a - 1))"
proof (intro conjI impI)
  assume "start - max_sd < 0"
  then show "has_shine_dalgarno hr sequence start max_sd = Inr False"
    by (simp add: has_shine_dalgarno_def)
next
  assume "predict_genes sequence sr pr hr min_gene_len max_sd min_gap = Some (Inr genes)"
  from predict_genes_motif[OF this]
  show "\<forall>(a, b) \<in> set genes. max_sd \<le> a - 1"
    by (auto simp: has_shine_dalgarno_def Let_def split: if_splits)
qed

text \<open>The theorem of C7: a start at 4 with the motif GGAG at 0 is refused at distance 10,
  and the gene of \<open>GGAGCCCCCCATGTAA\<close> starts at index 10.\<close>

theorem C7_no_gene_before_max_distance_witness:
  "has_shine_dalgarno shine_regex ''GGAGATGAAATAA'' 4 10 = Inr False \<and>
   re_search shine_regex ''GGAGATGAAATAA'' 0 4 \<noteq> None \<and>
   predict_genes ''GGAGCCCCCCATGTAA'' start_regex stop_regex shine_regex 3 10 6
     = Some (Inr [(11, 16)]) \<and>
   (10::int) \<le> 11 - 1"
proof -
  have run: "predict_genes ''GGAGCCCCCCATGTAA'' start_regex stop_regex shine_regex 3 10 6
     = Some (Inr [(11, 16)])"
    by code_simp
  have m: "re_search shine_regex ''GGAGATGAAATAA'' 0 4 \<noteq> None"
    by code_simp
  from C7_no_gene_before_max_distance[where start = 4 and max_sd = 10 and hr = shine_regex
         and sequence = "''GGAGATGAAATAA''"]
       C7_no_gene_before_max_distance[where max_sd = 10 and hr = shine_regex
         and sequence = "''GGAGCCCCCCATGTAA''" and sr = start_regex and pr = stop_regex
         and min_gene_len = 3 and min_gap = 6 and genes = "[(11, 16)]"] run m
  show ?thesis by simp
qed

text \<open>C10, as stated, fails.  \<open>has_shine_dalgarno\<close> does not return false for every
  distance up to 9: at start 0 and distance \<open>-2^63\<close> the search would begin at \<open>2^63\<close>,
  which does not fit \<open>ssize_t\<close>, and the call raises \<open>OverflowError\<close>; so does
  \<open>predict_genes\<close> at the first candidate that reaches the motif check.\<close>

theorem C10_counterexample:
  "(- 9223372036854775808 :: int) \<le> 9 \<and>
   has_shine_dalgarno shine_regex ''GGAGG'' 0 (- 9223372036854775808) = Inl OverflowError \<and>
   predict_genes ''GGAGCCCCCCATGTAA'' start_regex stop_regex shine_regex 3
     (- 9223372036854775808) 6 = Some (Inl OverflowError)"
  by code_simp

text \<open>C10, amended.  With \<open>max_shine_dalgarno_distance \<le> 9\<close> the window is at most 3
  bases wide and every match of the motif pattern has at least 4, so
  \<open>has_shine_dalgarno\<close> never returns true: it returns false, except that it raises
  \<open>OverflowError\<close> when \<open>start - max_distance \<ge> 0\<close> and one of the bounds
  \<open>start - max_distance\<close> and \<open>start - 6\<close> of the search does not fit the 64-bit
  \<open>ssize_t\<close>; and \<open>predict_genes\<close> accepts no gene.\<close>

theorem C10_short_window_never_accepts:
  assumes "max_sd \<le> 9"
  shows "has_shine_dalgarno shine_regex sequence start max_sd =
           (if 0 \<le> start - max_sd \<and>
               \<not> (fits_ssize_t (start - max_sd) \<and> fits_ssize_t (start - 6))
            then Inl OverflowError else Inr False) \<and>
         (\<forall>genes. predict_genes sequence sr pr shine_regex min_gene_len max_sd min_gap
                    = Some (Inr genes) \<longrightarrow> genes = [])"
proof (intro conjI allI impI)
  show "has_shine_dalgarno shine_regex sequence start max_sd =
           (if 0 \<le> start - max_sd \<and>
               \<not> (fits_ssize_t (start - max_sd) \<and> fits_ssize_t (start - 6))
            then Inl OverflowError else Inr False)"
    using assms by (rule has_shine_dalgarno_short_window_value)
next
  fix genes
  assume "predict_genes sequence sr pr shine_regex min_gene_len max_sd min_gap = Some (Inr genes)"
  from predict_genes_motif[OF this] has_shine_dalgarno_short_window[OF assms]
  show "genes = []" by (cases genes) auto
qed

text \<open>The amended C10 at distance 9, on a sequence whose gene is accepted at
  distance 10.\<close>

theorem C10_short_window_never_accepts_witness:
  "(9::int) \<le> 9 \<and>
   has_shine_dalgarno shine_regex ''GGAGGCCCCCATGTAA'' 10 9 = Inr False \<and>
   predict_genes ''GGAGGCCCCCATGTAA'' start_regex stop_regex shine_regex 3 9 6 = Some (Inr []) \<and>
   predict_genes ''GGAGGCCCCCATGTAA'' start_regex stop_regex shine_regex 3 10 6
     = Some (Inr [(11, 16)])"
proof -
  have nine: "(9::int) \<le> 9" by simp
  have run9: "predict_genes ''GGAGGCCCCCATGTAA'' start_regex stop_regex shine_regex 3 9 6
      = Some (Inr [])"
    by code_simp
  have run10: "predict_genes ''GGAGGCCCCCATGTAA'' start_regex stop_regex shine_regex 3 10 6
      = Some (Inr [(11, 16)])"
    by code_simp
  from C10_short_window_never_accepts[OF nine, of "''GGAGGCCCCCATGTAA''" 10] nine run9 run10
  show ?thesis by (simp add: fits_ssize_t_def)
qed

text \<open>Whatever the pattern, a stop that \<open>find_stop\<close> returns is not before the
  start of its search.\<close>

lemma finditer_from_fst:
  "(i, j) \<in> set (finditer_from r s lo is) \<Longrightarrow> i \<in> set is"
proof (induction "is" arbitrary: lo)
  case Nil
  then show ?case by simp
next
  case (Cons k ks)
  then show ?case
    by (auto split: if_splits option.splits)
qed

lemma first_in_frame_mem:
  "first_in_frame f ms = Some p \<Longrightarrow> \<exists>i j. (i, j) \<in> set ms \<and> p = int i"
  by (induction f ms rule: first_in_frame.induct) (auto split: if_splits)

lemma find_stop_ge:
  assumes "find_stop r sequence start = Some st" and "start \<le> int (length sequence)"
  shows "start \<le> st"
proof -
  from assms(1) obtain i j where
    "(i, j) \<in> set (finditer_from r sequence 0 [clamp_index sequence start ..< Suc (length sequence)])"
    and st: "st = int i"
    unfolding find_stop_def re_finditer_def Let_def by (blast dest: first_in_frame_mem)
  from finditer_from_fst[OF this(1)] have "clamp_index sequence start \<le> i"
    by (simp del: upt_Suc)
  with clamp_index_ge[of start sequence] assms(2) st show ?thesis by linarith
qed

text \<open>With the patterns of \<open>main\<close>, every recorded gene begins at a start codon and
  ends with a stop codon in its frame.\<close>

lemma predict_genes_codons:
  assumes "predict_genes sequence start_regex stop_regex shine_regex min_gene_len max_sd min_gap
             = Some (Inr genes)"
  shows "\<forall>(a, b) \<in> set genes.
           codon_at sequence (a - 1) \<in> start_codons \<and> stop_in_frame sequence (a - 1) (b - 3)"
proof -
  define I where "I = (\<lambda>(cur :: int option) (g :: gene list).
      \<forall>(a, b) \<in> set g.
         codon_at sequence (a - 1) \<in> start_codons \<and> stop_in_frame sequence (a - 1) (b - 3))"
  have "\<exists>c. I (Some c) genes"
  proof (rule predict_genes_invariant[OF assms])
    show "I (Some 0) []" by (simp add: I_def)
  next
    fix c g c' g'
    assume inv: "I (Some c) g"
      and lb: "loop_body sequence start_regex stop_regex shine_regex min_gene_len max_sd min_gap
                 c g = Inr (c', g')"
    from lb show "I c' g'"
    proof (cases rule: loop_body_cases)
      case no_start
      with inv show ?thesis by (simp add: I_def)
    next
      case (reject s)
      with inv show ?thesis by (simp add: I_def)
    next
      case (accept s st)
      from find_start_bounds(1)[OF accept(1)] find_start_codon[OF accept(1)]
      have "codon_at sequence s \<in> start_codons" by (simp add: codon_at_def)
      moreover from accept(2) have "stop_in_frame sequence s st"
        by (simp add: find_stop_Some)
      ultimately show ?thesis using inv accept by (simp add: I_def)
    qed
  qed
  then show ?thesis by (simp add: I_def)
qed

text \<open>C4.  For every gene \<open>[start, stop]\<close> that \<open>predict_genes\<close> reports,
  \<open>stop - start + 1\<close> is a multiple of 3, the bases at the 1-indexed positions
  \<open>start..start+2\<close> are a start codon, those at \<open>stop-2..stop\<close> are a stop codon, and the
  two codons lie in the same reading frame.\<close>

theorem C4_gene_shape:
  assumes "predict_genes sequence start_regex stop_regex shine_regex min_gene_len max_sd min_gap
             = Some (Inr genes)"
    and "(start, stop) \<in> set genes"
  shows "(stop - start + 1) mod 3 = 0 \<and>
         codon_at sequence (start - 1) \<in> start_codons \<and>
         codon_at sequence (stop - 3) \<in> stop_codons \<and>
         (start - 1) mod 3 = (stop - 3) mod 3"
proof -
  from predict_genes_codons[OF assms(1)] assms(2)
  have sc: "codon_at sequence (start - 1) \<in> start_codons"
    and sf: "stop_in_frame sequence (start - 1) (stop - 3)" by auto
  from sf have pc: "codon_at sequence (stop - 3) \<in> stop_codons"
    and fr: "(stop - 3) mod 3 = (start - 1) mod 3"
    by (simp_all add: stop_in_frame_def)
  from fr have "(stop - start + 1) mod 3 = 0" by presburger
  with sc pc fr show ?thesis by simp
qed

text \<open>The theorem of C4 on the second gene of a scan that reports two.\<close>

theorem C4_gene_shape_witness:
  "predict_genes ''GGAGCCCCCCATGTAAGGAGCCCCCCATGTAA'' start_regex stop_regex shine_regex 3 10 1
     = Some (Inr [(11, 16), (27, 32)]) \<and>
   ((32::int) - 27 + 1) mod 3 = 0 \<and>
   codon_at ''GGAGCCCCCCATGTAAGGAGCCCCCCATGTAA'' 26 = ''ATG'' \<and>
   codon_at ''GGAGCCCCCCATGTAAGGAGCCCCCCATGTAA'' 26 \<in> start_codons \<and>
   codon_at ''GGAGCCCCCCATGTAAGGAGCCCCCCATGTAA'' 29 = ''TAA'' \<and>
   codon_at ''GGAGCCCCCCATGTAAGGAGCCCCCCATGTAA'' 29 \<in> stop_codons \<and>
   ((27::int) - 1) mod 3 = (32 - 3) mod 3"
proof -
  have run: "predict_genes ''GGAGCCCCCCATGTAAGGAGCCCCCCATGTAA'' start_regex stop_regex
      shine_regex 3 10 1 = Some (Inr [(11, 16), (27, 32)])"
    by code_simp
  have "((27::int), (32::int)) \<in> set [(11, 16), (27, 32)]" by simp
  from C4_gene_shape[OF run this] run show ?thesis
    by (simp add: codon_at_def)
qed

text \<open>With a gap that is not negative the cursor never moves back, and each gene lies
  behind the cursor by at least the gap.\<close>

lemma predict_genes_spacing:
  assumes run: "predict_genes sequence sr pr hr min_gene_len max_sd min_gap = Some (Inr genes)"
    and gap: "0 \<le> min_gap"
  shows "sorted_wrt (\<lambda>g h. snd g + min_gap + 1 \<le> fst h) genes \<and>
         (\<forall>(a, b) \<in> set genes. a \<le> b)"
proof -
  define I where "I = (\<lambda>(cur :: int option) (g :: gene list).
      sorted_wrt (\<lambda>g h. snd g + min_gap + 1 \<le> fst h) g \<and>
      (\<forall>(a, b) \<in> set g. a \<le> b \<and> (\<forall>c. cur = Some c \<longrightarrow> b + min_gap \<le> c)))"
  have "\<exists>c. I (Some c) genes"
  proof (rule predict_genes_invariant[OF run])
    show "I (Some 0) []" by (simp add: I_def)
  next
    fix c g c' g'
    assume inv: "I (Some c) g"
      and active: "min_gap \<le> int (length sequence) - c"
      and lb: "loop_body sequence sr pr hr min_gene_len max_sd min_gap c g = Inr (c', g')"
    from active gap have cl: "c \<le> int (length sequence)" by simp
    from inv have srt: "sorted_wrt (\<lambda>g h. snd g + min_gap + 1 \<le> fst h) g"
      and old: "\<forall>(a, b) \<in> set g. a \<le> b \<and> b + min_gap \<le> c"
      by (auto simp: I_def)
    from lb show "I c' g'"
    proof (cases rule: loop_body_cases)
      case no_start
      with srt old show ?thesis by (auto simp: I_def)
    next
      case (reject s)
      from find_start_bounds(2)[OF reject(1) cl] have "c \<le> s" .
      with reject srt old show ?thesis by (fastforce simp: I_def)
    next
      case (accept s st)
      from find_start_bounds(2)[OF accept(1) cl] have cs: "c \<le> s" .
      from find_stop_ge[OF accept(2) find_start_bounds(3)[OF accept(1)]] have sst: "s \<le> st" .
      have "sorted_wrt (\<lambda>g h. snd g + min_gap + 1 \<le> fst h) (g @ [(s + 1, st + 3)])"
        using srt old cs by (fastforce simp: sorted_wrt_append)
      moreover have "\<forall>(a, b) \<in> set (g @ [(s + 1, st + 3)]).
          a \<le> b \<and> b + min_gap \<le> st + 3 + min_gap"
        using old cs sst gap by fastforce
      ultimately show ?thesis using accept by (simp add: I_def)
    qed
  qed
  then show ?thesis by (auto simp: I_def)
qed

text \<open>C5.  For \<open>min_gap \<ge> 0\<close>, any two genes of one scan, the earlier \<open>(a, b)\<close> and
  the later \<open>(a', b')\<close>, satisfy \<open>a < a'\<close>, \<open>b < a'\<close> and \<open>b + min_gap + 1 \<le> a'\<close>: starts
  increase strictly, genes do not overlap, and (consecutive pairs included) the next
  start is at least \<open>min_gap + 1\<close> after the previous stop.\<close>

theorem C5_ordered_non_overlapping:
  assumes "predict_genes sequence sr pr hr min_gene_len max_sd min_gap = Some (Inr genes)"
    and "0 \<le> min_gap"
  shows "sorted_wrt (\<lambda>(a, b) (a', b'). a < a' \<and> b < a' \<and> b + min_gap + 1 \<le> a') genes"
proof -
  from predict_genes_spacing[OF assms]
  have srt: "sorted_wrt (\<lambda>g h. snd g + min_gap + 1 \<le> fst h) genes"
    and le: "\<forall>(a, b) \<in> set genes. a \<le> b" by simp_all
  show ?thesis
  proof (rule sorted_wrt_mono_rel[OF _ srt])
    fix x y assume "x \<in> set genes" "y \<in> set genes" "snd x + min_gap + 1 \<le> fst y"
    with le assms(2) show "(case x of (a, b) \<Rightarrow> \<lambda>(a', b'). a < a' \<and> b < a' \<and> b + min_gap + 1 \<le> a') y"
      by (cases x; cases y) auto
  qed
qed

text \<open>The theorem of C5 on a scan that reports two genes.\<close>

theorem C5_ordered_non_overlapping_witness:
  "predict_genes ''GGAGCCCCCCATGTAAGGAGCCCCCCATGTAA'' start_regex stop_regex shine_regex 3 10 1
     = Some (Inr [(11, 16), (27, 32)]) \<and> (0::int) \<le> 1 \<and>
   (11::int) < 27 \<and> (16::int) < 27 \<and> (16::int) + 1 + 1 \<le> 27"
proof -
  have run: "predict_genes ''GGAGCCCCCCATGTAAGGAGCCCCCCATGTAA'' start_regex stop_regex
      shine_regex 3 10 1 = Some (Inr [(11, 16), (27, 32)])"
    by code_simp
  have gap: "(0::int) \<le> 1" by simp
  from C5_ordered_non_overlapping[OF run gap] run show ?thesis by simp
qed

section \<open>The scan returns\<close>

text \<open>With a gap that is not negative the cursor grows at every pass, so the loop ends:
  the scan returns a list of genes or raises, and the properties above speak of every
  such run.\<close>

lemma predict_loop_returns:
  assumes gap: "0 \<le> min_gap"
  shows "\<exists>r. predict_loop sequence sr pr hr min_gene_len max_sd min_gap (Some c) g = Some r"
proof (induction "nat (int (length sequence) + 1 - c)" arbitrary: c g rule: less_induct)
  case less
  show ?case
  proof (cases "min_gap \<le> int (length sequence) - c")
    case False
    then show ?thesis by (subst predict_loop.simps) simp
  next
    case True
    with gap have cl: "c \<le> int (length sequence)" by simp
    show ?thesis
    proof (cases "loop_body sequence sr pr hr min_gene_len max_sd min_gap c g")
      case (Inl e)
      with True show ?thesis by (subst predict_loop.simps) simp
    next
      case (Inr state)
      then obtain c' g' where lb:
        "loop_body sequence sr pr hr min_gene_len max_sd min_gap c g = Inr (c', g')"
        by (cases state) simp
      have unfold: "predict_loop sequence sr pr hr min_gene_len max_sd min_gap (Some c) g =
          predict_loop sequence sr pr hr min_gene_len max_sd min_gap c' g'"
        using True lb by (subst predict_loop.simps) simp
      from lb show ?thesis
      proof (cases rule: loop_body_cases)
      case no_start
      have "predict_loop sequence sr pr hr min_gene_len max_sd min_gap None g'
          = Some (Inl TypeError)"
        by (subst predict_loop.simps) simp
      with unfold no_start show ?thesis by simp
    next
      case (reject s)
      from find_start_bounds(2)[OF reject(1) cl] have "c \<le> s" .
      with cl have "nat (int (length sequence) + 1 - (s + 1)) < nat (int (length sequence) + 1 - c)"
        by simp
      from less.hyps[OF this] unfold reject show ?thesis by simp
    next
      case (accept s st)
      from find_start_bounds(2)[OF accept(1) cl] have cs: "c \<le> s" .
      from find_stop_ge[OF accept(2) find_start_bounds(3)[OF accept(1)]] have "s \<le> st" .
      with cs cl gap
      have "nat (int (length sequence) + 1 - (st + 3 + min_gap)) < nat (int (length sequence) + 1 - c)"
        by simp
      from less.hyps[OF this] unfold accept show ?thesis by simp
      qed
    qed
  qed
qed

lemma predict_genes_returns:
  "0 \<le> min_gap \<Longrightarrow>
     \<exists>r. predict_genes sequence sr pr hr min_gene_len max_sd min_gap = Some r"
  unfolding predict_genes_def by (rule predict_loop_returns)

end
